theory Spec2Isabelle
  imports Main
begin

section \<open>Data model of \<open>preprocessing.py\<close>\<close>

text \<open>
  The three frozen dataclasses of the module. Python strings are modelled as
  \<open>string\<close>; a \<open>char\<close> stands for the code point of the same number, so the
  model covers texts whose code points lie below 256. Python integers are
  \<open>int\<close>. A NumPy array built from a list of integers is the list itself.
\<close>

record sentence_pair =
  source :: "string list"
  target :: "string list"

record tokenized_sentence_pair =
  source_tokens :: "int list"
  target_tokens :: "int list"

record labeled_alignment =
  sure :: "(int \<times> int) list"
  possible :: "(int \<times> int) list"

text \<open>
  A Python \<open>dict\<close> keeps its keys in insertion order, and \<open>sorted\<close> and
  \<open>enumerate\<close> read that order, so a dict is an association list without
  repeated keys. \<open>dict_set\<close> is the assignment \<open>d[k] = v\<close>: an existing key keeps
  its place, a new key goes to the end.
\<close>

type_synonym ('k, 'v) dict = "('k \<times> 'v) list"

definition dict_get :: "('k, 'v) dict \<Rightarrow> 'k \<Rightarrow> 'v option" where
  "dict_get d k = map_of d k"

definition dict_contains :: "('k, 'v) dict \<Rightarrow> 'k \<Rightarrow> bool" where
  "dict_contains d k = (dict_get d k \<noteq> None)"

definition dict_keys :: "('k, 'v) dict \<Rightarrow> 'k list" where
  "dict_keys d = map fst d"

primrec dict_set :: "'k \<Rightarrow> 'v \<Rightarrow> ('k, 'v) dict \<Rightarrow> ('k, 'v) dict" where
  "dict_set k v [] = [(k, v)]"
| "dict_set k v (p # ps) = (if fst p = k then (k, v) # ps else p # dict_set k v ps)"

text \<open>\<open>dict(items)\<close> and a dict comprehension: the items are assigned one by one.\<close>

definition py_dict :: "('k \<times> 'v) list \<Rightarrow> ('k, 'v) dict" where
  "py_dict items = fold (\<lambda>item d. dict_set (fst item) (snd item) d) items []"

section \<open>Vocabulary builder: \<open>get_token_to_index\<close>\<close>

text \<open>
  One of the two inner counting loops (lines 92-96 and 98-102): a token already
  among the keys has its count incremented, a new token is entered with count 1.
\<close>

fun count_tokens :: "string list \<Rightarrow> (string, int) dict \<Rightarrow> (string, int) dict" where
  "count_tokens [] vocab = vocab"
| "count_tokens (token # rest) vocab =
     (case dict_get vocab token of
        Some c \<Rightarrow> count_tokens rest (dict_set token (c + 1) vocab)
      | None \<Rightarrow> count_tokens rest (dict_set token 1 vocab))"

text \<open>The outer loop over the sentence pairs (lines 91-102).\<close>

fun count_corpus ::
  "sentence_pair list \<Rightarrow> (string, int) dict \<Rightarrow> (string, int) dict \<Rightarrow>
   (string, int) dict \<times> (string, int) dict" where
  "count_corpus [] source_vocab target_vocab = (source_vocab, target_vocab)"
| "count_corpus (sentense # rest) source_vocab target_vocab =
     count_corpus rest (count_tokens (source sentense) source_vocab)
                       (count_tokens (target sentense) target_vocab)"

text \<open>
  \<open>sorted(items, key=lambda item: item[1], reverse=True)\<close>. Python's sort is
  stable, also with \<open>reverse=True\<close>: items with equal counts keep their order.
  \<open>sort_key\<close> is a stable insertion sort; descending order is ascending order of
  the negated count.
\<close>

definition sorted_by_count_desc :: "(string \<times> int) list \<Rightarrow> (string \<times> int) list" where
  "sorted_by_count_desc items = sort_key (\<lambda>item. - snd item) items"

text \<open>
  The slice \<open>xs[:k]\<close>: a negative \<open>k\<close> counts from the end, and the bounds are
  clipped to the list.
\<close>

definition py_slice_to :: "int \<Rightarrow> 'a list \<Rightarrow> 'a list" where
  "py_slice_to k xs =
     (if k < 0 then take (nat (int (length xs) + k)) xs else take (nat k) xs)"

text \<open>\<open>{token: it for it, token in enumerate(keys)}\<close> (lines 107-111).\<close>

definition index_dict :: "string list \<Rightarrow> (string, int) dict" where
  "index_dict keys = py_dict (map (\<lambda>(it, token). (token, int it)) (enumerate 0 keys))"

text \<open>
  Lines 103-111 for one language: sort the counted items, rebuild the dict,
  cut the key list when \<open>freq_cutoff\<close> is not \<open>None\<close>, number the keys.
\<close>

definition rank_vocab :: "int option \<Rightarrow> (string, int) dict \<Rightarrow> (string, int) dict" where
  "rank_vocab freq_cutoff vocab =
     (let vocab' = py_dict (sorted_by_count_desc vocab) in
      case freq_cutoff of
        Some k \<Rightarrow> index_dict (py_slice_to k (dict_keys vocab'))
      | None \<Rightarrow> index_dict (dict_keys vocab'))"

definition get_token_to_index ::
  "sentence_pair list \<Rightarrow> int option \<Rightarrow> (string, int) dict \<times> (string, int) dict" where
  "get_token_to_index sentence_pairs freq_cutoff =
     (case count_corpus sentence_pairs [] [] of
        (source_vocab, target_vocab) \<Rightarrow>
          (rank_vocab freq_cutoff source_vocab, rank_vocab freq_cutoff target_vocab))"

section \<open>Sentence tokenizer: \<open>tokenize_sents\<close>\<close>

text \<open>
  One of the two inner loops (lines 133-137 and 139-143): the index of a known
  token is appended, an unknown token empties the list and the scan goes on.
\<close>

fun tokenize_side :: "(string, int) dict \<Rightarrow> string list \<Rightarrow> int list \<Rightarrow> int list" where
  "tokenize_side d [] ints = ints"
| "tokenize_side d (token # rest) ints =
     (case dict_get d token of
        Some i \<Rightarrow> tokenize_side d rest (ints @ [i])
      | None \<Rightarrow> tokenize_side d rest [])"

text \<open>The outer loop (lines 130-146), with the result list \<open>res\<close> as accumulator.\<close>

fun tokenize_loop ::
  "sentence_pair list \<Rightarrow> (string, int) dict \<Rightarrow> (string, int) dict \<Rightarrow>
   tokenized_sentence_pair list \<Rightarrow> tokenized_sentence_pair list" where
  "tokenize_loop [] source_dict target_dict res = res"
| "tokenize_loop (sentense # rest) source_dict target_dict res =
     (let source_ints = tokenize_side source_dict (source sentense) [];
          target_ints = tokenize_side target_dict (target sentense) []
      in if length target_ints \<noteq> 0 \<and> length source_ints \<noteq> 0
         then tokenize_loop rest source_dict target_dict
                (res @ [\<lparr>source_tokens = source_ints, target_tokens = target_ints\<rparr>])
         else tokenize_loop rest source_dict target_dict res)"

definition tokenize_sents ::
  "sentence_pair list \<Rightarrow> (string, int) dict \<Rightarrow> (string, int) dict \<Rightarrow>
   tokenized_sentence_pair list" where
  "tokenize_sents sentence_pairs source_dict target_dict =
     tokenize_loop sentence_pairs source_dict target_dict []"

section \<open>Corpus extractor: \<open>extract_sentences\<close>\<close>

text \<open>The exceptions the function can raise.\<close>

datatype error = FileNotFoundError | ParseError | IndexError | AttributeError | ValueError

text \<open>
  An \<open>Element\<close> of \<open>xml.etree.ElementTree\<close>, with the parts the function reads:
  the tag, the text before the first sub-element (\<open>None\<close> when the parser saw no
  character data there), and the sub-elements in document order.
\<close>

datatype element =
  Element (elem_tag: string) (elem_text: "string option") (elem_children: "element list")

text \<open>\<open>xs[i]\<close> for a non-negative \<open>i\<close>: \<open>IndexError\<close> out of range.\<close>

definition py_index :: "'a list \<Rightarrow> nat \<Rightarrow> error + 'a" where
  "py_index xs i = (if i < length xs then Inr (xs ! i) else Inl IndexError)"

text \<open>
  \<open>s.replace(old, new)\<close> for a pattern \<open>old\<close> of one character: every occurrence
  is replaced, from left to right.
\<close>

fun py_replace_char :: "char \<Rightarrow> string \<Rightarrow> string \<Rightarrow> string" where
  "py_replace_char old new [] = []"
| "py_replace_char old new (c # cs) =
     (if c = old then new @ py_replace_char old new cs
      else c # py_replace_char old new cs)"

text \<open>
  The characters for which \<open>str.isspace\<close> holds, among the code points below 256:
  tab, line feed, vertical tab, form feed, carriage return, the four separators
  \<open>0x1C\<close> to \<open>0x1F\<close>, space, next line \<open>0x85\<close> and no-break space \<open>0xA0\<close>.
\<close>

definition whitespace :: "char list" where
  "whitespace = [CHR 0x09, CHR 0x0A, CHR 0x0B, CHR 0x0C, CHR 0x0D, CHR 0x1C, CHR 0x1D,
                 CHR 0x1E, CHR 0x1F, CHR 0x20, CHR 0x85, CHR 0xA0]"

definition is_space :: "char \<Rightarrow> bool" where
  "is_space c = (c \<in> set whitespace)"

text \<open>
  \<open>s.split()\<close> without arguments: the maximal runs of non-whitespace characters,
  in order; \<open>cur\<close> is the run being read.
\<close>

fun split_runs :: "string \<Rightarrow> string \<Rightarrow> string list" where
  "split_runs cur [] = (if cur = [] then [] else [cur])"
| "split_runs cur (c # cs) =
     (if is_space c then (if cur = [] then split_runs [] cs else cur # split_runs [] cs)
      else split_runs (cur @ [c]) cs)"

definition py_split :: "string \<Rightarrow> string list" where
  "py_split s = split_runs [] s"

text \<open>
  \<open>s.split(sep)\<close> for a separator of one character: the pieces between the
  separators, empty pieces included; the result is never empty.
\<close>

fun split_pieces :: "char \<Rightarrow> string \<Rightarrow> string \<Rightarrow> string list" where
  "split_pieces sep cur [] = [cur]"
| "split_pieces sep cur (c # cs) =
     (if c = sep then cur # split_pieces sep [] cs else split_pieces sep (cur @ [c]) cs)"

definition py_split_on :: "char \<Rightarrow> string \<Rightarrow> string list" where
  "py_split_on sep s = split_pieces sep [] s"

text \<open>
  \<open>int(s)\<close> for a string, base 10: surrounding whitespace is stripped, one sign
  may lead, then come decimal digits, where single underscores may stand between
  two digits. Anything else raises \<open>ValueError\<close>. Below code point 256 the decimal
  digits are \<open>0\<close> to \<open>9\<close>. The interpreter's limit on the number of digits of a
  converted string is configurable and not modelled.
\<close>

definition is_digit :: "char \<Rightarrow> bool" where
  "is_digit c = (c \<in> set ''0123456789'')"

definition digit_value :: "char \<Rightarrow> int" where
  "digit_value c = int (of_char c) - 48"

fun parse_digits :: "int \<Rightarrow> string \<Rightarrow> int option" where
  "parse_digits acc [] = Some acc"
| "parse_digits acc [c] = (if is_digit c then Some (acc * 10 + digit_value c) else None)"
| "parse_digits acc (c # d # rest) =
     (if is_digit c then parse_digits (acc * 10 + digit_value c) (d # rest)
      else if c = CHR ''_'' \<and> is_digit d then parse_digits acc (d # rest)
      else None)"

definition parse_unsigned :: "string \<Rightarrow> int option" where
  "parse_unsigned s =
     (case s of [] \<Rightarrow> None
      | c # rest \<Rightarrow> if is_digit c then parse_digits (digit_value c) rest else None)"

definition py_strip :: "string \<Rightarrow> string" where
  "py_strip s = rev (dropWhile is_space (rev (dropWhile is_space s)))"

definition py_int :: "string \<Rightarrow> error + int" where
  "py_int s =
     (let body = py_strip s;
          v = (case body of
                 [] \<Rightarrow> None
               | c # rest \<Rightarrow>
                   if c = CHR ''+'' then parse_unsigned rest
                   else if c = CHR ''-'' then map_option uminus (parse_unsigned rest)
                   else parse_unsigned body)
      in case v of None \<Rightarrow> Inl ValueError | Some n \<Rightarrow> Inr n)"

text \<open>\<open>token[i].text.split()\<close> (line 62): a \<open>None\<close> text has no \<open>split\<close>.\<close>

definition text_split :: "element \<Rightarrow> nat \<Rightarrow> error + string list" where
  "text_split token i =
     (case py_index (elem_children token) i of
        Inl e \<Rightarrow> Inl e
      | Inr sub \<Rightarrow>
          (case elem_text sub of
             None \<Rightarrow> Inl AttributeError
           | Some s \<Rightarrow> Inr (py_split s)))"

text \<open>\<open>(int(s.split('-')[0]), int(s.split('-')[1]))\<close>, evaluated from left to right.\<close>

definition parse_pair :: "string \<Rightarrow> error + (int \<times> int)" where
  "parse_pair s =
     (case py_index (py_split_on CHR ''-'' s) 0 of
        Inl e \<Rightarrow> Inl e
      | Inr p0 \<Rightarrow>
          (case py_int p0 of
             Inl e \<Rightarrow> Inl e
           | Inr a \<Rightarrow>
               (case py_index (py_split_on CHR ''-'' s) 1 of
                  Inl e \<Rightarrow> Inl e
                | Inr p1 \<Rightarrow>
                    (case py_int p1 of
                       Inl e \<Rightarrow> Inl e
                     | Inr b \<Rightarrow> Inr (a, b)))))"

text \<open>The list comprehension of lines 66 and 68: the first failing item raises.\<close>

fun parse_pairs :: "string list \<Rightarrow> error + (int \<times> int) list" where
  "parse_pairs [] = Inr []"
| "parse_pairs (s # rest) =
     (case parse_pair s of
        Inl e \<Rightarrow> Inl e
      | Inr p \<Rightarrow>
          (case parse_pairs rest of
             Inl e \<Rightarrow> Inl e
           | Inr ps \<Rightarrow> Inr (p # ps)))"

text \<open>Lines 64-68 for one of the two alignment fields: a \<open>None\<close> text gives \<open>[]\<close>.\<close>

definition alignment_field :: "element \<Rightarrow> nat \<Rightarrow> error + (int \<times> int) list" where
  "alignment_field token i =
     (case py_index (elem_children token) i of
        Inl e \<Rightarrow> Inl e
      | Inr sub \<Rightarrow>
          (case elem_text sub of
             None \<Rightarrow> Inr []
           | Some s \<Rightarrow> parse_pairs (py_split s)))"

text \<open>The body of the loop (lines 62-70) for one child \<open>token\<close> of the root.\<close>

definition extract_record :: "element \<Rightarrow> error + (sentence_pair \<times> labeled_alignment)" where
  "extract_record token =
     (case text_split token 0 of
        Inl e \<Rightarrow> Inl e
      | Inr src \<Rightarrow>
          (case text_split token 1 of
             Inl e \<Rightarrow> Inl e
           | Inr tgt \<Rightarrow>
               (case alignment_field token 2 of
                  Inl e \<Rightarrow> Inl e
                | Inr sure_pairs \<Rightarrow>
                    (case alignment_field token 3 of
                       Inl e \<Rightarrow> Inl e
                     | Inr possible_pairs \<Rightarrow>
                         Inr (\<lparr>source = src, target = tgt\<rparr>,
                              \<lparr>sure = sure_pairs, possible = possible_pairs\<rparr>)))))"

text \<open>The loop over the children of the root (lines 61-70), with both result lists.\<close>

fun extract_loop ::
  "element list \<Rightarrow> sentence_pair list \<Rightarrow> labeled_alignment list \<Rightarrow>
   error + (sentence_pair list \<times> labeled_alignment list)" where
  "extract_loop [] sentence_pairs alignments = Inr (sentence_pairs, alignments)"
| "extract_loop (token # rest) sentence_pairs alignments =
     (case extract_record token of
        Inl e \<Rightarrow> Inl e
      | Inr (sentence, alignment) \<Rightarrow>
          extract_loop rest (sentence_pairs @ [sentence]) (alignments @ [alignment]))"

text \<open>Line 51: \<open>s.replace('&', '&amp;')\<close>.\<close>

definition escape_ampersands :: "string \<Rightarrow> string" where
  "escape_ampersands s = py_replace_char CHR ''&'' ''&amp;'' s"

text \<open>
  The function itself. The file system is a dict from file names to their decoded
  contents; reading a missing file raises. The escaped text is written to the
  file \<open>new\<close>, which \<open>ET.parse\<close> then reads. The XML parser belongs to the
  standard library and is a parameter: it maps the text of a file to the root
  element or to a parse error.
\<close>

definition extract_sentences ::
  "(string \<Rightarrow> error + element) \<Rightarrow> (string, string) dict \<Rightarrow> string \<Rightarrow>
   (string, string) dict \<times> (error + (sentence_pair list \<times> labeled_alignment list))" where
  "extract_sentences parse fs filename =
     (case dict_get fs filename of
        None \<Rightarrow> (fs, Inl FileNotFoundError)
      | Some content \<Rightarrow>
          (let s = escape_ampersands content;
               fs' = dict_set ''new'' s fs
           in (fs',
               case dict_get fs' ''new'' of
                 None \<Rightarrow> Inl FileNotFoundError
               | Some written \<Rightarrow>
                   (case parse written of
                      Inl e \<Rightarrow> Inl e
                    | Inr root \<Rightarrow> extract_loop (elem_children root) [] []))))"

text \<open>
  A parser known on one document only, for the examples: it answers \<open>root\<close> on
  the text \<open>doc\<close> and a parse error on every other text.
\<close>

definition parse_as :: "string \<Rightarrow> element \<Rightarrow> string \<Rightarrow> error + element" where
  "parse_as doc root s = (if s = doc then Inr root else Inl ParseError)"

text \<open>
  What an XML parser makes of the references in a run of character data that
  uses the five predefined entities only: \<open>&name;\<close> stands for the character of
  the entity, and an ampersand that starts no such reference is not well-formed
  (\<open>None\<close>). Character references and entities declared in a document type
  definition are outside this model. The first argument is the name read so far
  inside a reference, \<open>None\<close> outside of one.
\<close>

definition predefined_entity :: "string \<Rightarrow> char option" where
  "predefined_entity name =
     map_of [(''amp'', CHR ''&''), (''lt'', CHR ''<''), (''gt'', CHR ''>''),
             (''quot'', CHR 0x22), (''apos'', CHR 0x27)] name"

fun expand_references :: "string option \<Rightarrow> string \<Rightarrow> string option" where
  "expand_references None [] = Some []"
| "expand_references (Some name) [] = None"
| "expand_references None (c # cs) =
     (if c = CHR ''&'' then expand_references (Some []) cs
      else map_option ((#) c) (expand_references None cs))"
| "expand_references (Some name) (c # cs) =
     (if c = CHR '';'' then
        (case predefined_entity name of
           None \<Rightarrow> None
         | Some ch \<Rightarrow> map_option ((#) ch) (expand_references None cs))
      else expand_references (Some (name @ [c])) cs)"

section \<open>Notions used to state the properties\<close>

text \<open>
  The tokens of one language in corpus order: the order in which the counting
  loops of \<open>get_token_to_index\<close> meet them.
\<close>

definition source_stream :: "sentence_pair list \<Rightarrow> string list" where
  "source_stream sentence_pairs = concat (map source sentence_pairs)"

definition target_stream :: "sentence_pair list \<Rightarrow> string list" where
  "target_stream sentence_pairs = concat (map target sentence_pairs)"

text \<open>The position at which a token is first seen in a stream.\<close>

definition first_index :: "'a list \<Rightarrow> 'a \<Rightarrow> nat" where
  "first_index stream t = length (takeWhile (\<lambda>x. x \<noteq> t) stream)"

text \<open>
  \<open>t\<close> outranks \<open>u\<close>: it is more frequent, or as frequent and first seen earlier.
  The frequency of a token is \<open>count_list stream t\<close>.
\<close>

definition outranks :: "'a list \<Rightarrow> 'a \<Rightarrow> 'a \<Rightarrow> bool" where
  "outranks stream t u =
     (count_list stream u < count_list stream t \<or>
      (count_list stream t = count_list stream u \<and> first_index stream t < first_index stream u))"

text \<open>The number of distinct tokens that outrank \<open>t\<close>.\<close>

definition rank_of :: "'a list \<Rightarrow> 'a \<Rightarrow> nat" where
  "rank_of stream t = length (filter (\<lambda>u. outranks stream u t) (remdups stream))"

text \<open>
  Closed forms used in the proofs: the distinct tokens of a stream in first-seen
  order, the dict the counting loop builds from a stream, its keys after the
  sort, and the optional cut of the key list.
\<close>

fun first_seen :: "'a list \<Rightarrow> 'a list" where
  "first_seen [] = []"
| "first_seen (x # xs) = x # filter (\<lambda>y. y \<noteq> x) (first_seen xs)"

definition tally :: "string list \<Rightarrow> (string, int) dict" where
  "tally stream = map (\<lambda>t. (t, int (count_list stream t))) (first_seen stream)"

definition ranked :: "string list \<Rightarrow> string list" where
  "ranked stream = map fst (sorted_by_count_desc (tally stream))"

definition cut :: "int option \<Rightarrow> 'a list \<Rightarrow> 'a list" where
  "cut freq_cutoff xs = (case freq_cutoff of Some k \<Rightarrow> py_slice_to k xs | None \<Rightarrow> xs)"

section \<open>Example documents\<close>

text \<open>
  A corpus file with two sentence pairs. The first source text holds a bare
  ampersand, the second target text an entity reference, and the first sure
  alignment the pair \<open>0-3\<close>. \<open>example_escaped\<close> is the text after line 51, and
  \<open>example_root\<close> the tree an XML parser reads from it.
\<close>

definition example_doc :: string where
  "example_doc =
     ''<d><s><e>AT&T b</e><c>x</c><u>0-3 1-1</u><p></p></s><s><e>c</e><c>y &amp; z</c><u></u><p>1-2</p></s></d>''"

definition example_escaped :: string where
  "example_escaped =
     ''<d><s><e>AT&amp;T b</e><c>x</c><u>0-3 1-1</u><p></p></s><s><e>c</e><c>y &amp;amp; z</c><u></u><p>1-2</p></s></d>''"

definition example_root :: element where
  "example_root =
     Element ''d'' None
       [Element ''s'' None
          [Element ''e'' (Some ''AT&T b'') [], Element ''c'' (Some ''x'') [],
           Element ''u'' (Some ''0-3 1-1'') [], Element ''p'' None []],
        Element ''s'' None
          [Element ''e'' (Some ''c'') [], Element ''c'' (Some ''y &amp; z'') [],
           Element ''u'' None [], Element ''p'' (Some ''1-2'') []]]"

text \<open>A corpus file whose only sentence pair has an empty source element.\<close>

definition absent_doc :: string where
  "absent_doc = ''<d><s><e></e><c>x</c><u>1-1</u><p></p></s></d>''"

definition absent_root :: element where
  "absent_root =
     Element ''d'' None
       [Element ''s'' None
          [Element ''e'' None [], Element ''c'' (Some ''x'') [],
           Element ''u'' (Some ''1-1'') [], Element ''p'' None []]]"

section \<open>Dicts\<close>

lemma dict_set_new: "k \<notin> fst ` set d \<Longrightarrow> dict_set k v d = d @ [(k, v)]"
  by (induction d) auto

lemma dict_set_graph:
  "distinct ks \<Longrightarrow> k \<in> set ks \<Longrightarrow>
   dict_set k v (map (\<lambda>u. (u, h u)) ks) = map (\<lambda>u. (u, if u = k then v else h u)) ks"
  by (induction ks) auto

lemma fold_dict_set_distinct:
  "distinct (map fst (acc @ items)) \<Longrightarrow>
   fold (\<lambda>item d. dict_set (fst item) (snd item) d) items acc = acc @ items"
proof (induction items arbitrary: acc)
  case Nil
  then show ?case by simp
next
  case (Cons item items)
  from Cons.prems have new: "fst item \<notin> fst ` set acc" by auto
  from Cons.prems have "distinct (map fst ((acc @ [item]) @ items))" by simp
  from Cons.IH [OF this] show ?case by (simp add: dict_set_new [OF new])
qed

lemma py_dict_distinct: "distinct (map fst items) \<Longrightarrow> py_dict items = items"
  using fold_dict_set_distinct [of "[]" items] by (simp add: py_dict_def)

lemma map_of_graph:
  "map_of (map (\<lambda>u. (u, h u)) ks) k = (if k \<in> set ks then Some (h k) else None)"
  by (induction ks) auto

lemma dict_get_dict_set_same: "dict_get (dict_set k v d) k = Some v"
  by (induction d) (auto simp: dict_get_def)

lemma dict_get_zip_index:
  assumes "distinct keys"
  shows "dict_get (zip keys (map int [0..<length keys])) t = Some i \<longleftrightarrow>
         (\<exists>n < length keys. keys ! n = t \<and> i = int n)"
proof -
  have "distinct (map fst (zip keys (map int [0..<length keys])))" using assms by simp
  then show ?thesis
    by (auto simp: dict_get_def in_set_zip)
qed

section \<open>The counting loops\<close>

text \<open>
  Counting a stream of tokens from the empty dict gives the distinct tokens in
  first-seen order, each with the number of its occurrences.
\<close>

lemma set_first_seen: "set (first_seen xs) = set xs"
  by (induction xs) auto

lemma distinct_first_seen: "distinct (first_seen xs)"
  by (induction xs) (auto simp: set_first_seen)

lemma first_seen_snoc:
  "first_seen (xs @ [t]) = (if t \<in> set xs then first_seen xs else first_seen xs @ [t])"
  by (induction xs) auto

lemma first_index_Cons:
  "first_index (x # xs) t = (if t = x then 0 else Suc (first_index xs t))"
  by (auto simp: first_index_def)

lemma sorted_first_seen:
  "sorted_wrt (\<lambda>a b. first_index xs a < first_index xs b) (first_seen xs)"
proof (induction xs)
  case Nil
  then show ?case by simp
next
  case (Cons x xs)
  have "sorted_wrt (\<lambda>a b. first_index xs a < first_index xs b) (filter (\<lambda>y. y \<noteq> x) (first_seen xs))"
    using Cons.IH by (rule sorted_wrt_filter)
  then have "sorted_wrt (\<lambda>a b. first_index (x # xs) a < first_index (x # xs) b)
               (filter (\<lambda>y. y \<noteq> x) (first_seen xs))"
    by (rule sorted_wrt_mono_rel [rotated]) (auto simp: first_index_Cons)
  then show ?case by (auto simp: first_index_Cons)
qed

lemma dict_get_tally:
  "dict_get (tally s) t = (if t \<in> set s then Some (int (count_list s t)) else None)"
  by (simp add: dict_get_def tally_def map_of_graph set_first_seen)

lemma tally_snoc:
  "tally (s @ [t]) = (if t \<in> set s then dict_set t (int (count_list s t) + 1) (tally s)
                      else dict_set t 1 (tally s))"
proof (cases "t \<in> set s")
  case True
  then have "t \<in> set (first_seen s)" by (simp add: set_first_seen)
  from dict_set_graph [OF distinct_first_seen this,
      of "int (count_list s t) + 1" "\<lambda>u. int (count_list s u)"] True
  show ?thesis by (auto simp: tally_def first_seen_snoc intro!: map_cong)
next
  case False
  then have "t \<notin> fst ` set (tally s)" by (auto simp: tally_def set_first_seen)
  from dict_set_new [OF this] False show ?thesis
    by (auto simp: tally_def first_seen_snoc set_first_seen)
qed

lemma count_tokens_tally: "count_tokens ts (tally s) = tally (s @ ts)"
proof (induction ts arbitrary: s)
  case Nil
  then show ?case by simp
next
  case (Cons t ts)
  have "count_tokens (t # ts) (tally s) = count_tokens ts (tally (s @ [t]))"
    by (simp add: dict_get_tally tally_snoc)
  then show ?case using Cons.IH [of "s @ [t]"] by simp
qed

lemma count_corpus_tally:
  "count_corpus sps (tally a) (tally b) =
     (tally (a @ source_stream sps), tally (b @ target_stream sps))"
  by (induction sps arbitrary: a b) (auto simp: source_stream_def target_stream_def count_tokens_tally)

lemma tally_Nil: "tally [] = []"
  by (simp add: tally_def)

lemma distinct_keys_tally: "distinct (map fst (tally s))"
  by (simp add: tally_def comp_def distinct_first_seen)

section \<open>Sorting and numbering\<close>

text \<open>
  A stable sort by one key, applied to a list that is strictly ordered by a second
  key, orders the list lexicographically by both.
\<close>

lemma insort_lex:
  fixes f :: "'a \<Rightarrow> int" and g :: "'a \<Rightarrow> nat"
  assumes "sorted_wrt (\<lambda>a b. f a < f b \<or> (f a = f b \<and> g a < g b)) ys"
    and "\<forall>y\<in>set ys. g x < g y"
  shows "sorted_wrt (\<lambda>a b. f a < f b \<or> (f a = f b \<and> g a < g b)) (insort_key f x ys)"
  using assms by (induction ys) (auto simp: set_insort_key)

lemma sort_key_lex:
  fixes f :: "'a \<Rightarrow> int" and g :: "'a \<Rightarrow> nat"
  assumes "sorted_wrt (\<lambda>a b. g a < g b) xs"
  shows "sorted_wrt (\<lambda>a b. f a < f b \<or> (f a = f b \<and> g a < g b)) (sort_key f xs)"
  using assms
proof (induction xs)
  case Nil
  then show ?case by simp
next
  case (Cons x xs)
  then have "sorted_wrt (\<lambda>a b. f a < f b \<or> (f a = f b \<and> g a < g b)) (sort_key f xs)" by simp
  moreover from Cons.prems have "\<forall>y\<in>set (sort_key f xs). g x < g y" by simp
  ultimately show ?case using insort_lex [of f g "sort_key f xs" x] by (simp add: sort_key_def)
qed

lemma distinct_ranked: "distinct (ranked s)"
  by (simp add: ranked_def sorted_by_count_desc_def distinct_keys_tally
      distinct_map inj_on_def tally_def distinct_first_seen)

lemma set_ranked: "set (ranked s) = set s"
  by (auto simp: ranked_def sorted_by_count_desc_def tally_def set_first_seen image_iff)

lemma length_ranked: "length (ranked s) = card (set s)"
  using distinct_card [OF distinct_ranked, of s] by (simp add: set_ranked)

lemma sorted_ranked: "sorted_wrt (outranks s) (ranked s)"
proof -
  let ?f = "\<lambda>item :: string \<times> int. - snd item"
  let ?g = "\<lambda>item :: string \<times> int. first_index s (fst item)"
  have "sorted_wrt (\<lambda>a b. ?g a < ?g b) (tally s)"
    using sorted_first_seen [of s] by (simp add: tally_def sorted_wrt_map)
  from sort_key_lex [OF this, of ?f]
  have "sorted_wrt (\<lambda>a b. ?f a < ?f b \<or> (?f a = ?f b \<and> ?g a < ?g b)) (sorted_by_count_desc (tally s))"
    by (simp add: sorted_by_count_desc_def)
  then have "sorted_wrt (\<lambda>a b. outranks s (fst a) (fst b)) (sorted_by_count_desc (tally s))"
    by (rule sorted_wrt_mono_rel [rotated])
       (auto simp: sorted_by_count_desc_def tally_def outranks_def)
  then show ?thesis by (simp add: ranked_def sorted_wrt_map)
qed

lemma outranks_ranked_nth:
  assumes "n < length (ranked s)" and "m < length (ranked s)"
  shows "outranks s (ranked s ! m) (ranked s ! n) \<longleftrightarrow> m < n"
proof
  assume "m < n"
  with sorted_ranked [of s] assms show "outranks s (ranked s ! m) (ranked s ! n)"
    by (simp add: sorted_wrt_nth_less)
next
  assume o: "outranks s (ranked s ! m) (ranked s ! n)"
  show "m < n"
  proof (rule ccontr)
    assume "\<not> m < n"
    then consider "m = n" | "n < m" by linarith
    then show False
    proof cases
      case 1
      with o show ?thesis by (auto simp: outranks_def)
    next
      case 2
      with sorted_ranked [of s] assms have "outranks s (ranked s ! n) (ranked s ! m)"
        by (simp add: sorted_wrt_nth_less)
      with o show ?thesis by (auto simp: outranks_def)
    qed
  qed
qed

lemma rank_of_ranked_nth:
  assumes "n < length (ranked s)"
  shows "rank_of s (ranked s ! n) = n"
proof -
  have "{u \<in> set s. outranks s u (ranked s ! n)} = set (take n (ranked s))"
  proof (intro set_eqI iffI)
    fix u assume "u \<in> {u \<in> set s. outranks s u (ranked s ! n)}"
    then have "u \<in> set (ranked s)" and o: "outranks s u (ranked s ! n)"
      by (simp_all add: set_ranked)
    then obtain m where m: "m < length (ranked s)" "ranked s ! m = u"
      by (auto simp: in_set_conv_nth)
    from o m(2) have "outranks s (ranked s ! m) (ranked s ! n)" by simp
    with assms m(1) have "m < n" by (simp add: outranks_ranked_nth)
    with m show "u \<in> set (take n (ranked s))"
      by (auto simp: in_set_conv_nth)
  next
    fix u assume "u \<in> set (take n (ranked s))"
    then obtain m where m: "m < n" "m < length (ranked s)" "ranked s ! m = u"
      by (auto simp: in_set_conv_nth)
    then have "u \<in> set (ranked s)" by auto
    moreover from m assms have "outranks s u (ranked s ! n)"
      using outranks_ranked_nth [of n s m] by simp
    ultimately show "u \<in> {u \<in> set s. outranks s u (ranked s ! n)}"
      by (simp add: set_ranked)
  qed
  moreover have "card (set (take n (ranked s))) = n"
    using assms by (simp add: distinct_card distinct_ranked)
  moreover have "rank_of s (ranked s ! n) = card {u \<in> set s. outranks s u (ranked s ! n)}"
    by (simp add: rank_of_def distinct_length_filter Int_def conj_commute)
  ultimately show ?thesis by simp
qed

lemma rank_of_less:
  assumes "t \<in> set s"
  shows "rank_of s t < length (ranked s)"
proof -
  from assms have "t \<in> set (ranked s)" by (simp add: set_ranked)
  then obtain n where "n < length (ranked s)" "ranked s ! n = t"
    by (auto simp: in_set_conv_nth)
  with rank_of_ranked_nth [of n s] show ?thesis by simp
qed

text \<open>The vocabulary of one language in closed form.\<close>

lemma index_dict_distinct:
  "distinct keys \<Longrightarrow> index_dict keys = zip keys (map int [0..<length keys])"
proof -
  assume d: "distinct keys"
  have eq: "map (\<lambda>(it, token). (token, int it)) (enumerate 0 keys) = zip keys (map int [0..<length keys])"
    by (simp add: enumerate_eq_zip zip_map2 zip_commute [of keys] split_def)
  have "distinct (map fst (zip keys (map int [0..<length keys])))" using d by simp
  then show ?thesis unfolding index_dict_def eq by (rule py_dict_distinct)
qed

lemma cut_prefix: "\<exists>m. cut freq_cutoff xs = take m xs"
  by (cases freq_cutoff) (auto simp: cut_def py_slice_to_def intro: exI [of _ "length xs"])

lemma length_cut_Some:
  "0 \<le> k \<Longrightarrow> length (cut (Some k) xs) = min (nat k) (length xs)"
  by (simp add: cut_def py_slice_to_def min.commute)

lemma length_cut_None: "length (cut None xs) = length xs"
  by (simp add: cut_def)

lemma rank_vocab_tally:
  "rank_vocab freq_cutoff (tally s) =
     zip (cut freq_cutoff (ranked s)) (map int [0..<length (cut freq_cutoff (ranked s))])"
proof -
  have "distinct (map fst (sorted_by_count_desc (tally s)))"
    using distinct_ranked [of s] by (simp add: ranked_def)
  then have 1: "py_dict (sorted_by_count_desc (tally s)) = sorted_by_count_desc (tally s)"
    by (rule py_dict_distinct)
  have 2: "distinct (cut freq_cutoff (ranked s))"
    by (auto simp: cut_def py_slice_to_def distinct_ranked split: option.splits)
  show ?thesis using index_dict_distinct [OF 2]
    by (simp add: rank_vocab_def 1 dict_keys_def cut_def ranked_def split: option.splits)
qed

lemma get_token_to_index_closed:
  "get_token_to_index sps freq_cutoff =
     (rank_vocab freq_cutoff (tally (source_stream sps)),
      rank_vocab freq_cutoff (tally (target_stream sps)))"
  using count_corpus_tally [of sps "[]" "[]"]
  by (simp add: get_token_to_index_def tally_Nil)

lemma side_lookup:
  "dict_get (rank_vocab freq_cutoff (tally s)) t = Some i \<longleftrightarrow>
   (\<exists>n < length (cut freq_cutoff (ranked s)). ranked s ! n = t \<and> i = int n)"
proof -
  obtain m where m: "cut freq_cutoff (ranked s) = take m (ranked s)"
    using cut_prefix by blast
  have "distinct (cut freq_cutoff (ranked s))" by (simp add: m distinct_ranked)
  from dict_get_zip_index [OF this] show ?thesis
    by (auto simp: rank_vocab_tally m)
qed

lemma side_order:
  assumes "dict_get (rank_vocab freq_cutoff (tally s)) t = Some i"
    and "dict_get (rank_vocab freq_cutoff (tally s)) u = Some j"
  shows "i < j \<longleftrightarrow> outranks s t u"
proof -
  obtain m where m: "cut freq_cutoff (ranked s) = take m (ranked s)"
    using cut_prefix by blast
  from assms obtain a b where
    a: "a < length (ranked s)" "ranked s ! a = t" "i = int a" and
    b: "b < length (ranked s)" "ranked s ! b = u" "j = int b"
    by (auto simp: side_lookup m)
  from outranks_ranked_nth [OF b(1) a(1)] a b show ?thesis by simp
qed

lemma side_contains:
  "dict_contains (rank_vocab freq_cutoff (tally s)) t \<longleftrightarrow>
   t \<in> set s \<and> rank_of s t < length (cut freq_cutoff (ranked s))"
proof
  assume "dict_contains (rank_vocab freq_cutoff (tally s)) t"
  then obtain i where "dict_get (rank_vocab freq_cutoff (tally s)) t = Some i"
    by (auto simp: dict_contains_def)
  then obtain n where n: "n < length (cut freq_cutoff (ranked s))" "ranked s ! n = t"
    by (auto simp: side_lookup)
  obtain m where m: "cut freq_cutoff (ranked s) = take m (ranked s)"
    using cut_prefix by blast
  from n m have len: "n < length (ranked s)" by simp
  then have "t \<in> set (ranked s)" using n by auto
  with rank_of_ranked_nth [OF len] n
  show "t \<in> set s \<and> rank_of s t < length (cut freq_cutoff (ranked s))"
    by (simp add: set_ranked)
next
  assume a: "t \<in> set s \<and> rank_of s t < length (cut freq_cutoff (ranked s))"
  then have "t \<in> set (ranked s)" by (simp add: set_ranked)
  then obtain n where n: "n < length (ranked s)" "ranked s ! n = t"
    by (auto simp: in_set_conv_nth)
  with rank_of_ranked_nth [OF n(1)] a have "n < length (cut freq_cutoff (ranked s))" by simp
  with n have "dict_get (rank_vocab freq_cutoff (tally s)) t = Some (int n)"
    by (auto simp: side_lookup)
  then show "dict_contains (rank_vocab freq_cutoff (tally s)) t"
    by (simp add: dict_contains_def)
qed

lemma side_length:
  "length (rank_vocab freq_cutoff (tally s)) = length (cut freq_cutoff (ranked s))"
  by (simp add: rank_vocab_tally)

lemma side_keys_values:
  "distinct (dict_keys (rank_vocab freq_cutoff (tally s))) \<and>
   map snd (rank_vocab freq_cutoff (tally s)) =
     map int [0..<length (rank_vocab freq_cutoff (tally s))]"
proof -
  obtain m where m: "cut freq_cutoff (ranked s) = take m (ranked s)"
    using cut_prefix by blast
  show ?thesis by (simp add: rank_vocab_tally dict_keys_def m distinct_ranked)
qed

lemma side_index_nonneg:
  "dict_get (rank_vocab freq_cutoff (tally s)) t = Some i \<Longrightarrow> 0 \<le> i"
  by (auto simp: side_lookup)

lemma side_most_frequent:
  assumes "dict_get (rank_vocab freq_cutoff (tally s)) t = Some 0"
    and "dict_contains (rank_vocab freq_cutoff (tally s)) u"
  shows "count_list s u \<le> count_list s t"
proof -
  from assms(2) obtain j where j: "dict_get (rank_vocab freq_cutoff (tally s)) u = Some j"
    by (auto simp: dict_contains_def)
  from side_index_nonneg [OF j] side_order [OF j assms(1)]
  have "\<not> outranks s u t" by simp
  then show ?thesis by (simp add: outranks_def)
qed

lemma side_size_cutoff:
  assumes "0 < k"
  shows "int (length (rank_vocab (Some k) (tally s))) = min k (int (card (set s)))"
proof -
  from assms have "length (rank_vocab (Some k) (tally s)) = min (nat k) (card (set s))"
    by (simp add: side_length length_cut_Some length_ranked)
  with assms show ?thesis by linarith
qed

lemma side_contains_cutoff:
  assumes "0 < k"
  shows "dict_contains (rank_vocab (Some k) (tally s)) t \<longleftrightarrow>
           t \<in> set s \<and> int (rank_of s t) < k"
proof (cases "t \<in> set s")
  case True
  from assms have "length (cut (Some k) (ranked s)) = min (nat k) (length (ranked s))"
    by (simp add: length_cut_Some)
  moreover note rank_of_less [OF True]
  ultimately have "rank_of s t < length (cut (Some k) (ranked s)) \<longleftrightarrow> int (rank_of s t) < k"
    using assms by linarith
  with True show ?thesis by (simp add: side_contains)
next
  case False
  then show ?thesis by (simp add: side_contains)
qed

lemma side_size_all: "length (rank_vocab None (tally s)) = card (set s)"
  by (simp add: side_length length_cut_None length_ranked)

lemma side_contains_all: "dict_contains (rank_vocab None (tally s)) t \<longleftrightarrow> t \<in> set s"
  using rank_of_less [of t s] by (auto simp: side_contains length_cut_None)

section \<open>Properties of \<open>get_token_to_index\<close>\<close>

text \<open>
  C3: the indices follow descending frequency, ties broken by the order in which
  the tokens are first seen in the corpus. For two tokens of a returned
  vocabulary, the one with the smaller index is the one that outranks the other;
  the token with index 0 is at least as frequent as every token of the
  vocabulary. This holds for both languages and every value of \<open>freq_cutoff\<close>.
\<close>

theorem vocab_order_by_frequency:
  "(dict_get (fst (get_token_to_index sentence_pairs freq_cutoff)) t = Some i \<and>
    dict_get (fst (get_token_to_index sentence_pairs freq_cutoff)) u = Some j \<longrightarrow>
      (i < j \<longleftrightarrow> outranks (source_stream sentence_pairs) t u)) \<and>
   (dict_get (snd (get_token_to_index sentence_pairs freq_cutoff)) t = Some i \<and>
    dict_get (snd (get_token_to_index sentence_pairs freq_cutoff)) u = Some j \<longrightarrow>
      (i < j \<longleftrightarrow> outranks (target_stream sentence_pairs) t u)) \<and>
   (dict_get (fst (get_token_to_index sentence_pairs freq_cutoff)) t = Some 0 \<and>
    dict_contains (fst (get_token_to_index sentence_pairs freq_cutoff)) u \<longrightarrow>
      count_list (source_stream sentence_pairs) u \<le> count_list (source_stream sentence_pairs) t) \<and>
   (dict_get (snd (get_token_to_index sentence_pairs freq_cutoff)) t = Some 0 \<and>
    dict_contains (snd (get_token_to_index sentence_pairs freq_cutoff)) u \<longrightarrow>
      count_list (target_stream sentence_pairs) u \<le> count_list (target_stream sentence_pairs) t)"
  unfolding get_token_to_index_closed fst_conv snd_conv
  using side_order side_most_frequent by blast

text \<open>
  An instance: in the source stream \<open>a b b c\<close> the tokens \<open>a\<close> and \<open>c\<close> are equally
  frequent and \<open>a\<close> is seen first; \<open>b\<close> is the most frequent.
\<close>

theorem vocab_order_by_frequency_witness:
  "get_token_to_index
     [\<lparr>source = [''a'', ''b'', ''b'', ''c''], target = [''x'', ''y'', ''y'']\<rparr>] None =
     ([(''b'', 0), (''a'', 1), (''c'', 2)], [(''y'', 0), (''x'', 1)]) \<and>
   outranks [''a'', ''b'', ''b'', ''c''] ''a'' ''c'' \<and>
   outranks [''x'', ''y'', ''y''] ''y'' ''x'' \<and>
   count_list [''a'', ''b'', ''b'', ''c''] ''a'' \<le> count_list [''a'', ''b'', ''b'', ''c''] ''b'' \<and>
   count_list [''x'', ''y'', ''y''] ''x'' \<le> count_list [''x'', ''y'', ''y''] ''y''"
proof -
  let ?sps = "[\<lparr>source = [''a'', ''b'', ''b'', ''c''], target = [''x'', ''y'', ''y'']\<rparr>]"
  have g: "get_token_to_index ?sps None =
             ([(''b'', 0), (''a'', 1), (''c'', 2)], [(''y'', 0), (''x'', 1)])"
    by (simp add: get_token_to_index_def rank_vocab_def py_dict_def dict_get_def
        sorted_by_count_desc_def dict_keys_def index_dict_def)
  have s: "source_stream ?sps = [''a'', ''b'', ''b'', ''c'']"
    and t: "target_stream ?sps = [''x'', ''y'', ''y'']"
    by (simp_all add: source_stream_def target_stream_def)
  have a: "dict_get (fst (get_token_to_index ?sps None)) ''a'' = Some 1"
    and c: "dict_get (fst (get_token_to_index ?sps None)) ''c'' = Some 2"
    and b: "dict_get (fst (get_token_to_index ?sps None)) ''b'' = Some 0"
    and ca: "dict_contains (fst (get_token_to_index ?sps None)) ''a''"
    and y: "dict_get (snd (get_token_to_index ?sps None)) ''y'' = Some 0"
    and x: "dict_get (snd (get_token_to_index ?sps None)) ''x'' = Some 1"
    and cx: "dict_contains (snd (get_token_to_index ?sps None)) ''x''"
    by (simp_all add: g dict_get_def dict_contains_def)
  from vocab_order_by_frequency [of ?sps None "''a''" 1 "''c''" 2] a c
  have 1: "outranks (source_stream ?sps) ''a'' ''c''" by simp
  from vocab_order_by_frequency [of ?sps None "''y''" 0 "''x''" 1] y x
  have 2: "outranks (target_stream ?sps) ''y'' ''x''" by simp
  from vocab_order_by_frequency [of ?sps None "''b''" 0 "''a''" 0] b ca
  have 3: "count_list (source_stream ?sps) ''a'' \<le> count_list (source_stream ?sps) ''b''"
    by blast
  from vocab_order_by_frequency [of ?sps None "''y''" 0 "''x''" 0] y cx
  have 4: "count_list (target_stream ?sps) ''x'' \<le> count_list (target_stream ?sps) ''y''"
    by blast
  from g 1 2 3 4 show ?thesis unfolding s t by (intro conjI)
qed

text \<open>
  C4: with a positive \<open>freq_cutoff = k\<close> each vocabulary has
  \<open>min k (number of distinct tokens)\<close> entries, and a token is a key exactly when
  it occurs in the corpus and fewer than \<open>k\<close> distinct tokens outrank it, so that
  no token beyond the cutoff is mapped; with \<open>None\<close> every distinct token is a key.
\<close>

theorem vocab_cutoff_keeps_most_frequent:
  assumes "0 < k"
  shows
  "int (length (fst (get_token_to_index sentence_pairs (Some k)))) =
     min k (int (card (set (source_stream sentence_pairs)))) \<and>
   int (length (snd (get_token_to_index sentence_pairs (Some k)))) =
     min k (int (card (set (target_stream sentence_pairs)))) \<and>
   (dict_contains (fst (get_token_to_index sentence_pairs (Some k))) t \<longleftrightarrow>
      t \<in> set (source_stream sentence_pairs) \<and>
      int (rank_of (source_stream sentence_pairs) t) < k) \<and>
   (dict_contains (snd (get_token_to_index sentence_pairs (Some k))) t \<longleftrightarrow>
      t \<in> set (target_stream sentence_pairs) \<and>
      int (rank_of (target_stream sentence_pairs) t) < k) \<and>
   length (fst (get_token_to_index sentence_pairs None)) =
     card (set (source_stream sentence_pairs)) \<and>
   length (snd (get_token_to_index sentence_pairs None)) =
     card (set (target_stream sentence_pairs)) \<and>
   (dict_contains (fst (get_token_to_index sentence_pairs None)) t \<longleftrightarrow>
      t \<in> set (source_stream sentence_pairs)) \<and>
   (dict_contains (snd (get_token_to_index sentence_pairs None)) t \<longleftrightarrow>
      t \<in> set (target_stream sentence_pairs))"
  by (simp only: get_token_to_index_closed fst_conv snd_conv
      side_size_cutoff [OF assms] side_contains_cutoff [OF assms]
      side_size_all side_contains_all simp_thms)

theorem vocab_cutoff_keeps_most_frequent_witness:
  "(0::int) < 2 \<and>
   int (length (fst (get_token_to_index
       [\<lparr>source = [''a'', ''b'', ''b'', ''c''], target = [''x'', ''y'', ''y'']\<rparr>] (Some 2)))) = 2 \<and>
   dict_contains (fst (get_token_to_index
       [\<lparr>source = [''a'', ''b'', ''b'', ''c''], target = [''x'', ''y'', ''y'']\<rparr>] (Some 2))) ''a'' \<and>
   \<not> dict_contains (fst (get_token_to_index
       [\<lparr>source = [''a'', ''b'', ''b'', ''c''], target = [''x'', ''y'', ''y'']\<rparr>] (Some 2))) ''c''"
proof -
  let ?sps = "[\<lparr>source = [''a'', ''b'', ''b'', ''c''], target = [''x'', ''y'', ''y'']\<rparr>]"
  have k: "(0::int) < 2" by simp
  have s: "source_stream ?sps = [''a'', ''b'', ''b'', ''c'']"
    by (simp add: source_stream_def)
  have ra: "rank_of [''a'', ''b'', ''b'', ''c''] ''a'' = 1"
    by (simp add: rank_of_def outranks_def first_index_def)
  have rc: "rank_of [''a'', ''b'', ''b'', ''c''] ''c'' = 2"
    by (simp add: rank_of_def outranks_def first_index_def)
  have c: "card (set [''a'', ''b'', ''b'', ''c'']) = 3"
    by simp
  note t = vocab_cutoff_keeps_most_frequent [OF k, of ?sps]
  from t [of "''a''"] have l: "int (length (fst (get_token_to_index ?sps (Some 2)))) = 2"
    by (simp add: s c)
  from t [of "''a''"] have a: "dict_contains (fst (get_token_to_index ?sps (Some 2))) ''a''"
    by (simp add: s ra)
  from t [of "''c''"] have n: "\<not> dict_contains (fst (get_token_to_index ?sps (Some 2))) ''c''"
    by (simp add: s rc)
  from k l a n show ?thesis by (intro conjI)
qed

text \<open>
  C6: for every value of \<open>freq_cutoff\<close>, no key of a returned vocabulary is
  repeated and its indices are \<open>0, 1, \<dots>, size - 1\<close>, each once.
\<close>

theorem vocab_indices_contiguous:
  "distinct (dict_keys (fst (get_token_to_index sentence_pairs freq_cutoff))) \<and>
   distinct (dict_keys (snd (get_token_to_index sentence_pairs freq_cutoff))) \<and>
   map snd (fst (get_token_to_index sentence_pairs freq_cutoff)) =
     map int [0..<length (fst (get_token_to_index sentence_pairs freq_cutoff))] \<and>
   map snd (snd (get_token_to_index sentence_pairs freq_cutoff)) =
     map int [0..<length (snd (get_token_to_index sentence_pairs freq_cutoff))]"
  unfolding get_token_to_index_closed fst_conv snd_conv
  using side_keys_values by blast

text \<open>
  C10: with \<open>freq_cutoff = 0\<close> the slice keeps no key, and both returned
  vocabularies are empty; nothing is raised.
\<close>

theorem vocab_cutoff_zero_empty:
  "get_token_to_index sentence_pairs (Some 0) = ([], [])"
  by (simp add: get_token_to_index_def rank_vocab_def py_slice_to_def index_dict_def
      py_dict_def split: prod.splits)

section \<open>Properties of \<open>tokenize_sents\<close>\<close>

lemma tokenize_side_known:
  "\<forall>t\<in>set ts. dict_contains d t \<Longrightarrow>
   map Some (tokenize_side d ts ints) = map Some ints @ map (dict_get d) ts"
  by (induction ts arbitrary: ints) (auto simp: dict_contains_def)

lemma tokenize_side_reset:
  "\<not> dict_contains d u \<Longrightarrow>
   tokenize_side d (pre @ u # suf) ints = tokenize_side d suf []"
  by (induction pre arbitrary: ints) (auto simp: dict_contains_def split: option.splits)

lemma tokenize_loop_filter:
  "tokenize_loop sps sd td res =
     res @ map (\<lambda>sp. \<lparr>source_tokens = tokenize_side sd (source sp) [],
                       target_tokens = tokenize_side td (target sp) []\<rparr>)
            (filter (\<lambda>sp. tokenize_side sd (source sp) [] \<noteq> [] \<and>
                           tokenize_side td (target sp) [] \<noteq> []) sps)"
  by (induction sps arbitrary: res) (auto simp: Let_def)

text \<open>
  C1: reset on miss. When every token of a side is in the vocabulary, the side's
  index list is the list of the tokens' indices. Otherwise it is the list of the
  indices of the tokens after the last token that is not in the vocabulary. With
  the source vocabulary \<open>{"a": 0, "c": 1}\<close> the source sentence \<open>a b c\<close> gives \<open>[1]\<close>.
\<close>

theorem tokenize_reset_on_miss:
  "((\<forall>t\<in>set ts. dict_contains d t) \<longrightarrow>
      map Some (tokenize_side d ts []) = map (dict_get d) ts) \<and>
   (\<not> dict_contains d u \<and> (\<forall>t\<in>set suf. dict_contains d t) \<longrightarrow>
      map Some (tokenize_side d (pre @ u # suf) []) = map (dict_get d) suf) \<and>
   tokenize_side [(''a'', 0), (''c'', 1)] [''a'', ''b'', ''c''] [] = [1] \<and>
   tokenize_sents [\<lparr>source = [''a'', ''b'', ''c''], target = tgt\<rparr>]
       [(''a'', 0), (''c'', 1)] target_dict =
     (if tokenize_side target_dict tgt [] = [] then []
      else [\<lparr>source_tokens = [1], target_tokens = tokenize_side target_dict tgt []\<rparr>])"
proof (intro conjI impI)
  show "tokenize_side [(''a'', 0), (''c'', 1)] [''a'', ''b'', ''c''] [] = [1]"
    by (simp add: dict_get_def)
next
  assume "\<forall>t\<in>set ts. dict_contains d t"
  from tokenize_side_known [OF this, of "[]"]
  show "map Some (tokenize_side d ts []) = map (dict_get d) ts" by simp
next
  assume a: "\<not> dict_contains d u \<and> (\<forall>t\<in>set suf. dict_contains d t)"
  then have "tokenize_side d (pre @ u # suf) [] = tokenize_side d suf []"
    by (simp add: tokenize_side_reset)
  with tokenize_side_known [of suf d "[]"] a
  show "map Some (tokenize_side d (pre @ u # suf) []) = map (dict_get d) suf" by simp
next
  show "tokenize_sents [\<lparr>source = [''a'', ''b'', ''c''], target = tgt\<rparr>]
       [(''a'', 0), (''c'', 1)] target_dict =
     (if tokenize_side target_dict tgt [] = [] then []
      else [\<lparr>source_tokens = [1], target_tokens = tokenize_side target_dict tgt []\<rparr>])"
    by (simp add: tokenize_sents_def dict_get_def Let_def)
qed

theorem tokenize_reset_on_miss_witness:
  "dict_contains [(''a'', 0), (''c'', 1 :: int)] ''a'' \<and>
   dict_contains [(''a'', 0), (''c'', 1 :: int)] ''c'' \<and>
   \<not> dict_contains [(''a'', 0), (''c'', 1 :: int)] ''b'' \<and>
   map Some (tokenize_side [(''a'', 0), (''c'', 1)] [''a'', ''c''] []) = [Some 0, Some 1] \<and>
   map Some (tokenize_side [(''a'', 0), (''c'', 1)] ([''a''] @ ''b'' # [''c'']) []) = [Some 1]"
proof -
  let ?d = "[(''a'', 0), (''c'', 1 :: int)]"
  have a: "dict_contains ?d ''a''" and c: "dict_contains ?d ''c''"
    and b: "\<not> dict_contains ?d ''b''"
    by (simp_all add: dict_contains_def dict_get_def)
  have g: "map (dict_get ?d) [''a'', ''c''] = [Some 0, Some 1]"
    "map (dict_get ?d) [''c''] = [Some 1]"
    by (simp_all add: dict_get_def)
  from a c have all2: "\<forall>t\<in>set [''a'', ''c'']. dict_contains ?d t" by simp
  from c have all1: "\<forall>t\<in>set [''c'']. dict_contains ?d t" by simp
  note t = tokenize_reset_on_miss [of _ ?d]
  from t [of "[''a'', ''c'']"] all2 g(1)
  have 1: "map Some (tokenize_side ?d [''a'', ''c''] []) = [Some 0, Some 1]"
    by presburger
  from t [of "[]" "''b''" "[''c'']" "[''a'']"] b all1 g(2)
  have 2: "map Some (tokenize_side ?d ([''a''] @ ''b'' # [''c'']) []) = [Some 1]"
    by presburger
  from a c b 1 2 show ?thesis by (intro conjI)
qed

text \<open>
  C5: the result holds, in input order, the index lists of exactly those sentence
  pairs for which both lists are non-empty; it is no longer than the input, and
  no record of it has an empty side.
\<close>

theorem tokenize_sents_keeps_representable:
  "tokenize_sents sentence_pairs source_dict target_dict =
     map (\<lambda>sp. \<lparr>source_tokens = tokenize_side source_dict (source sp) [],
                 target_tokens = tokenize_side target_dict (target sp) []\<rparr>)
         (filter (\<lambda>sp. tokenize_side source_dict (source sp) [] \<noteq> [] \<and>
                        tokenize_side target_dict (target sp) [] \<noteq> []) sentence_pairs) \<and>
   length (tokenize_sents sentence_pairs source_dict target_dict) \<le> length sentence_pairs \<and>
   (\<forall>r\<in>set (tokenize_sents sentence_pairs source_dict target_dict).
      source_tokens r \<noteq> [] \<and> target_tokens r \<noteq> [])"
  by (auto simp: tokenize_sents_def tokenize_loop_filter)

text \<open>An instance: the second pair has no known target token and is left out.\<close>

theorem tokenize_sents_keeps_representable_witness:
  "tokenize_sents
     [\<lparr>source = [''a'', ''b'', ''c''], target = [''x'']\<rparr>,
      \<lparr>source = [''a''], target = [''q'']\<rparr>,
      \<lparr>source = [''c'', ''a''], target = [''x'', ''x'']\<rparr>]
     [(''a'', 0), (''c'', 1)] [(''x'', 0)] =
     [\<lparr>source_tokens = [1], target_tokens = [0]\<rparr>,
      \<lparr>source_tokens = [1, 0], target_tokens = [0, 0]\<rparr>] \<and>
   \<lparr>source_tokens = [1], target_tokens = [0]\<rparr> \<in>
     set (tokenize_sents
       [\<lparr>source = [''a'', ''b'', ''c''], target = [''x'']\<rparr>,
        \<lparr>source = [''a''], target = [''q'']\<rparr>,
        \<lparr>source = [''c'', ''a''], target = [''x'', ''x'']\<rparr>]
       [(''a'', 0), (''c'', 1)] [(''x'', 0)]) \<and>
   source_tokens \<lparr>source_tokens = [1], target_tokens = [0]\<rparr> \<noteq> [] \<and>
   target_tokens \<lparr>source_tokens = [1], target_tokens = [0]\<rparr> \<noteq> []"
proof -
  let ?sps = "[\<lparr>source = [''a'', ''b'', ''c''], target = [''x'']\<rparr>,
               \<lparr>source = [''a''], target = [''q'']\<rparr>,
               \<lparr>source = [''c'', ''a''], target = [''x'', ''x'']\<rparr>]"
  let ?sd = "[(''a'', 0), (''c'', 1 :: int)]"
  let ?td = "[(''x'', 0 :: int)]"
  let ?r = "\<lparr>source_tokens = [1], target_tokens = [0]\<rparr>"
  have out: "tokenize_sents ?sps ?sd ?td =
               [?r, \<lparr>source_tokens = [1, 0], target_tokens = [0, 0]\<rparr>]"
    by (simp add: tokenize_sents_def dict_get_def)
  then have m: "?r \<in> set (tokenize_sents ?sps ?sd ?td)" by simp
  from tokenize_sents_keeps_representable [of ?sps ?sd ?td]
  have "\<forall>r\<in>set (tokenize_sents ?sps ?sd ?td). source_tokens r \<noteq> [] \<and> target_tokens r \<noteq> []"
    by blast
  from bspec [OF this m] out m show ?thesis by blast
qed

section \<open>Properties of \<open>extract_sentences\<close>\<close>

lemma extract_loop_records:
  "extract_loop tokens sps als = Inr (sps', als') \<longleftrightarrow>
   (\<exists>rs. map extract_record tokens = map Inr rs \<and>
         sps' = sps @ map fst rs \<and> als' = als @ map snd rs)"
proof (induction tokens arbitrary: sps als)
  case Nil
  then show ?case by auto
next
  case (Cons token rest)
  show ?case
  proof (cases "extract_record token")
    case (Inl e)
    then show ?thesis by (auto simp: map_eq_Cons_conv)
  next
    case (Inr r)
    obtain sp al where r: "r = (sp, al)" by (cases r)
    have "extract_loop (token # rest) sps als = extract_loop rest (sps @ [sp]) (als @ [al])"
      by (simp add: Inr r)
    also have "\<dots> = Inr (sps', als') \<longleftrightarrow>
      (\<exists>rs. map extract_record rest = map Inr rs \<and>
            sps' = (sps @ [sp]) @ map fst rs \<and> als' = (als @ [al]) @ map snd rs)"
      by (rule Cons.IH)
    also have "\<dots> \<longleftrightarrow>
      (\<exists>rs. map extract_record (token # rest) = map Inr rs \<and>
            sps' = sps @ map fst rs \<and> als' = als @ map snd rs)"
    proof
      assume "\<exists>rs. map extract_record rest = map Inr rs \<and>
            sps' = (sps @ [sp]) @ map fst rs \<and> als' = (als @ [al]) @ map snd rs"
      then obtain rs where "map extract_record rest = map Inr rs"
        "sps' = (sps @ [sp]) @ map fst rs" "als' = (als @ [al]) @ map snd rs" by blast
      then have "map extract_record (token # rest) = map Inr ((sp, al) # rs) \<and>
            sps' = sps @ map fst ((sp, al) # rs) \<and> als' = als @ map snd ((sp, al) # rs)"
        by (simp add: Inr r)
      then show "\<exists>rs. map extract_record (token # rest) = map Inr rs \<and>
            sps' = sps @ map fst rs \<and> als' = als @ map snd rs" by blast
    next
      assume "\<exists>rs. map extract_record (token # rest) = map Inr rs \<and>
            sps' = sps @ map fst rs \<and> als' = als @ map snd rs"
      then obtain rs where rs: "map extract_record (token # rest) = map Inr rs"
        "sps' = sps @ map fst rs" "als' = als @ map snd rs" by blast
      from rs(1) obtain r' rs' where c: "rs = r' # rs'" "extract_record token = Inr r'"
        "map extract_record rest = map Inr rs'"
        by (auto simp: Cons_eq_map_conv)
      with Inr r have "r' = (sp, al)" by simp
      with c rs have "map extract_record rest = map Inr rs' \<and>
            sps' = (sps @ [sp]) @ map fst rs' \<and> als' = (als @ [al]) @ map snd rs'" by simp
      then show "\<exists>rs. map extract_record rest = map Inr rs \<and>
            sps' = (sps @ [sp]) @ map fst rs \<and> als' = (als @ [al]) @ map snd rs" by blast
    qed
    finally show ?thesis .
  qed
qed

lemma records_by_index:
  "(\<exists>rs. map f tokens = map Inr rs \<and> sps = map fst rs \<and> als = map snd rs) \<longleftrightarrow>
   (length sps = length tokens \<and> length als = length tokens \<and>
    (\<forall>i<length tokens. f (tokens ! i) = Inr (sps ! i, als ! i)))"
proof
  assume "\<exists>rs. map f tokens = map Inr rs \<and> sps = map fst rs \<and> als = map snd rs"
  then obtain rs where rs: "map f tokens = map Inr rs" "sps = map fst rs" "als = map snd rs"
    by blast
  from rs(1) have len: "length tokens = length rs" by (metis length_map)
  have "f (tokens ! i) = Inr (sps ! i, als ! i)" if "i < length tokens" for i
  proof -
    from that have "map f tokens ! i = f (tokens ! i)" by simp
    moreover from that len have "map Inr rs ! i = Inr (rs ! i)" by simp
    ultimately show ?thesis using rs that len by simp
  qed
  with len rs show "length sps = length tokens \<and> length als = length tokens \<and>
    (\<forall>i<length tokens. f (tokens ! i) = Inr (sps ! i, als ! i))" by simp
next
  assume a: "length sps = length tokens \<and> length als = length tokens \<and>
    (\<forall>i<length tokens. f (tokens ! i) = Inr (sps ! i, als ! i))"
  then have "map f tokens = map Inr (zip sps als)"
    by (auto simp: list_eq_iff_nth_eq)
  moreover from a have "sps = map fst (zip sps als)" "als = map snd (zip sps als)"
    by simp_all
  ultimately show "\<exists>rs. map f tokens = map Inr rs \<and> sps = map fst rs \<and> als = map snd rs"
    by blast
qed

lemma extract_sentences_parsed:
  assumes "dict_get fs filename = Some content"
    and "parse (escape_ampersands content) = Inr root"
  shows "snd (extract_sentences parse fs filename) = extract_loop (elem_children root) [] []"
  using assms by (simp add: extract_sentences_def Let_def dict_get_dict_set_same)

lemma extract_sentences_result:
  "snd (extract_sentences parse fs filename) = Inr r \<Longrightarrow>
   \<exists>content root. dict_get fs filename = Some content \<and>
     parse (escape_ampersands content) = Inr root \<and>
     extract_loop (elem_children root) [] [] = Inr r"
  by (auto simp: extract_sentences_def Let_def dict_get_dict_set_same
      split: option.splits sum.splits)

text \<open>The function on the example document.\<close>

lemmas extract_eval =
  extract_sentences_def dict_get_def Let_def parse_as_def extract_record_def
  text_split_def alignment_field_def py_index_def py_split_def is_space_def whitespace_def
  parse_pair_def py_split_on_def py_int_def py_strip_def parse_unsigned_def is_digit_def
  digit_value_def

lemma example_escape: "escape_ampersands example_doc = example_escaped"
  by (simp add: escape_ampersands_def example_doc_def example_escaped_def)

lemma example_result:
  "snd (extract_sentences (parse_as example_escaped example_root)
         [(''corpus'', example_doc)] ''corpus'') =
   Inr ([\<lparr>source = [''AT&T'', ''b''], target = [''x'']\<rparr>,
         \<lparr>source = [''c''], target = [''y'', ''&amp;'', ''z'']\<rparr>],
        [\<lparr>sure = [(0, 3), (1, 1)], possible = []\<rparr>,
         \<lparr>sure = [], possible = [(1, 2)]\<rparr>])"
  by (simp add: extract_eval example_escape) (simp add: example_root_def extract_eval)


text \<open>
  C2: when the file exists and the parser reads a root from the escaped text,
  the function returns the two lists exactly when each has one entry per child
  of the root and the \<open>i\<close>-th sentence pair and the \<open>i\<close>-th alignment are what the
  loop body makes of the \<open>i\<close>-th child. So the lists have equal length and are
  in document order.
\<close>

theorem extract_sentences_index_aligned:
  assumes "dict_get fs filename = Some content"
    and "parse (escape_ampersands content) = Inr root"
  shows "snd (extract_sentences parse fs filename) = Inr (sentence_pairs, alignments) \<longleftrightarrow>
         length sentence_pairs = length (elem_children root) \<and>
         length alignments = length (elem_children root) \<and>
         (\<forall>i<length (elem_children root).
            extract_record (elem_children root ! i) = Inr (sentence_pairs ! i, alignments ! i))"
  unfolding extract_sentences_parsed [of fs filename content parse root, OF assms]
  using extract_loop_records [of "elem_children root" "[]" "[]" sentence_pairs alignments]
    records_by_index [of extract_record "elem_children root" sentence_pairs alignments]
  by simp

text \<open>An instance: the example document and its two records.\<close>

theorem extract_sentences_index_aligned_witness:
  "dict_get [(''corpus'', example_doc)] ''corpus'' = Some example_doc \<and>
   parse_as example_escaped example_root (escape_ampersands example_doc) = Inr example_root \<and>
   length [\<lparr>source = [''AT&T'', ''b''], target = [''x'']\<rparr>,
           \<lparr>source = [''c''], target = [''y'', ''&amp;'', ''z'']\<rparr>] =
     length (elem_children example_root) \<and>
   length [\<lparr>sure = [(0, 3), (1, 1)], possible = []\<rparr>, \<lparr>sure = [], possible = [(1, 2)]\<rparr>] =
     length (elem_children example_root) \<and>
   extract_record (elem_children example_root ! 0) =
     Inr (\<lparr>source = [''AT&T'', ''b''], target = [''x'']\<rparr>,
          \<lparr>sure = [(0, 3), (1, 1)], possible = []\<rparr>) \<and>
   extract_record (elem_children example_root ! 1) =
     Inr (\<lparr>source = [''c''], target = [''y'', ''&amp;'', ''z'']\<rparr>,
          \<lparr>sure = [], possible = [(1, 2)]\<rparr>)"
proof -
  let ?sps = "[\<lparr>source = [''AT&T'', ''b''], target = [''x'']\<rparr>,
               \<lparr>source = [''c''], target = [''y'', ''&amp;'', ''z'']\<rparr>]"
  let ?als = "[\<lparr>sure = [(0, 3), (1, 1)], possible = []\<rparr>,
               \<lparr>sure = [], possible = [(1, 2)]\<rparr>]"
  have h1: "dict_get [(''corpus'', example_doc)] ''corpus'' = Some example_doc"
    by (simp add: dict_get_def)
  have h2: "parse_as example_escaped example_root (escape_ampersands example_doc) =
              Inr example_root"
    by (simp add: parse_as_def example_escape)
  have n: "length (elem_children example_root) = 2"
    by (simp add: example_root_def)
  note aligned = extract_sentences_index_aligned
         [where parse = "parse_as example_escaped example_root" and root = example_root
            and sentence_pairs = ?sps and alignments = ?als, OF h1 h2]
  from iffD1 [OF aligned example_result]
  have all: "length ?sps = length (elem_children example_root) \<and>
             length ?als = length (elem_children example_root) \<and>
             (\<forall>i<length (elem_children example_root).
                extract_record (elem_children example_root ! i) = Inr (?sps ! i, ?als ! i))"
    .
  then have "extract_record (elem_children example_root ! 0) = Inr (?sps ! 0, ?als ! 0)"
    and "extract_record (elem_children example_root ! 1) = Inr (?sps ! 1, ?als ! 1)"
    using n by simp_all
  with h1 h2 all show ?thesis by simp
qed

text \<open>
  C9 as stated, with positions of at least 1, does not hold: the pair \<open>0-3\<close> of
  the example document is returned as \<open>(0, 3)\<close>.
\<close>

theorem alignment_positions_from_one_counterexample:
  "snd (extract_sentences (parse_as example_escaped example_root)
         [(''corpus'', example_doc)] ''corpus'') =
   Inr ([\<lparr>source = [''AT&T'', ''b''], target = [''x'']\<rparr>,
         \<lparr>source = [''c''], target = [''y'', ''&amp;'', ''z'']\<rparr>],
        [\<lparr>sure = [(0, 3), (1, 1)], possible = []\<rparr>,
         \<lparr>sure = [], possible = [(1, 2)]\<rparr>]) \<and>
   (0, 3) \<in> set (sure \<lparr>sure = [(0, 3), (1, 1)], possible = []\<rparr>) \<and>
   \<not> (1::int) \<le> 0"
  by (simp add: extract_eval example_escape) (simp add: example_root_def extract_eval)

text \<open>Integers read from a piece without a minus sign are not negative.\<close>

lemma split_pieces_no_sep:
  "sep \<notin> set cur \<Longrightarrow> \<forall>p\<in>set (split_pieces sep cur s). sep \<notin> set p"
proof (induction s arbitrary: cur)
  case Nil
  then show ?case by simp
next
  case (Cons c cs)
  show ?case
  proof (cases "c = sep")
    case True
    have "\<forall>p\<in>set (split_pieces sep [] cs). sep \<notin> set p"
      by (rule Cons.IH) simp
    with True Cons.prems show ?thesis by simp
  next
    case False
    with Cons.prems have "sep \<notin> set (cur @ [c])" by simp
    from Cons.IH [OF this] False show ?thesis by simp
  qed
qed

lemma py_split_on_no_sep: "p \<in> set (py_split_on sep s) \<Longrightarrow> sep \<notin> set p"
  using split_pieces_no_sep [of sep "[]" s] by (simp add: py_split_on_def)

lemma digit_value_nonneg: "is_digit c \<Longrightarrow> 0 \<le> digit_value c"
  by (auto simp: is_digit_def digit_value_def)

lemma parse_digits_nonneg: "parse_digits acc s = Some n \<Longrightarrow> 0 \<le> acc \<Longrightarrow> 0 \<le> n"
proof (induction acc s rule: parse_digits.induct)
  case (1 acc)
  then show ?case by simp
next
  case (2 acc c)
  then show ?case using digit_value_nonneg [of c] by (auto split: if_splits)
next
  case (3 acc c d rest)
  then show ?case using digit_value_nonneg [of c] by (auto split: if_splits)
qed

lemma parse_unsigned_nonneg: "parse_unsigned s = Some n \<Longrightarrow> 0 \<le> n"
  using parse_digits_nonneg digit_value_nonneg
  by (auto simp: parse_unsigned_def split: list.splits if_splits)

lemma set_py_strip: "set (py_strip s) \<subseteq> set s"
proof -
  have "set (py_strip s) \<subseteq> set (dropWhile is_space s)"
    unfolding py_strip_def set_rev by (metis set_dropWhileD set_rev subsetI)
  also have "\<dots> \<subseteq> set s" by (auto dest: set_dropWhileD)
  finally show ?thesis .
qed

lemma py_int_nonneg:
  assumes "py_int s = Inr n" and "CHR ''-'' \<notin> set s"
  shows "0 \<le> n"
proof -
  from assms(2) set_py_strip [of s] have m: "CHR ''-'' \<notin> set (py_strip s)" by blast
  show ?thesis
  proof (cases "py_strip s")
    case Nil
    with assms(1) show ?thesis by (simp add: py_int_def)
  next
    case (Cons c rest)
    with m have c: "c \<noteq> CHR ''-''" by auto
    from assms(1) Cons c
    have "parse_unsigned rest = Some n \<or> parse_unsigned (c # rest) = Some n"
      by (auto simp: py_int_def split: if_splits option.splits)
    then show ?thesis using parse_unsigned_nonneg by blast
  qed
qed

lemma py_index_in_set: "py_index xs i = Inr x \<Longrightarrow> x \<in> set xs"
  by (auto simp: py_index_def split: if_splits)

lemma parse_pair_nonneg:
  assumes "parse_pair s = Inr (a, b)"
  shows "0 \<le> a \<and> 0 \<le> b"
proof -
  from assms obtain p0 p1 where
    p: "py_index (py_split_on CHR ''-'' s) 0 = Inr p0" "py_int p0 = Inr a"
       "py_index (py_split_on CHR ''-'' s) 1 = Inr p1" "py_int p1 = Inr b"
    by (auto simp: parse_pair_def split: sum.splits)
  from p(1,3) have "CHR ''-'' \<notin> set p0" "CHR ''-'' \<notin> set p1"
    by (auto dest!: py_index_in_set py_split_on_no_sep)
  with p(2,4) show ?thesis by (auto dest: py_int_nonneg)
qed

lemma parse_pairs_nonneg:
  "parse_pairs ss = Inr ps \<Longrightarrow> (a, b) \<in> set ps \<Longrightarrow> 0 \<le> a \<and> 0 \<le> b"
proof (induction ss arbitrary: ps)
  case Nil
  then show ?case by simp
next
  case (Cons s rest)
  from Cons.prems(1) obtain p ps' where
    p: "parse_pair s = Inr p" "parse_pairs rest = Inr ps'" "ps = p # ps'"
    by (auto split: sum.splits)
  from Cons.prems(2) p(3) consider "p = (a, b)" | "(a, b) \<in> set ps'" by auto
  then show ?case
  proof cases
    case 1
    with p(1) show ?thesis by (simp add: parse_pair_nonneg)
  next
    case 2
    with Cons.IH [OF p(2)] show ?thesis by simp
  qed
qed

lemma alignment_field_nonneg:
  "alignment_field token i = Inr ps \<Longrightarrow> (a, b) \<in> set ps \<Longrightarrow> 0 \<le> a \<and> 0 \<le> b"
  by (auto simp: alignment_field_def split: sum.splits option.splits dest: parse_pairs_nonneg)

lemma extract_record_nonneg:
  assumes "extract_record token = Inr (sp, al)"
    and "(a, b) \<in> set (sure al) \<union> set (possible al)"
  shows "0 \<le> a \<and> 0 \<le> b"
proof -
  from assms(1) obtain s p where
    "alignment_field token 2 = Inr s" "alignment_field token 3 = Inr p"
    "al = \<lparr>sure = s, possible = p\<rparr>"
    by (auto simp: extract_record_def split: sum.splits)
  with assms(2) alignment_field_nonneg show ?thesis by auto
qed

lemma extract_loop_nonneg:
  assumes "extract_loop tokens [] [] = Inr (sps, als)"
    and "al \<in> set als" and "(a, b) \<in> set (sure al) \<union> set (possible al)"
  shows "0 \<le> a \<and> 0 \<le> b"
proof -
  from assms(1) obtain rs where rs: "map extract_record tokens = map Inr rs" "als = map snd rs"
    using extract_loop_records [of tokens "[]" "[]" sps als] by auto
  from assms(2) rs(2) obtain sp where "(sp, al) \<in> set rs" by auto
  then have "Inr (sp, al) \<in> set (map extract_record tokens)" by (simp add: rs(1))
  then obtain token where "extract_record token = Inr (sp, al)" by auto
  from this assms(3) show ?thesis by (rule extract_record_nonneg)
qed

text \<open>
  C9, as amended: every position of a returned sure or possible pair is at
  least 0. The positions are the integers written in the file; a piece that
  starts with a minus sign is split at that sign, so no negative number is read.
\<close>

theorem alignment_positions_nonnegative:
  assumes "snd (extract_sentences parse fs filename) = Inr (sentence_pairs, alignments)"
    and "al \<in> set alignments"
    and "(a, b) \<in> set (sure al) \<union> set (possible al)"
  shows "0 \<le> a \<and> 0 \<le> b"
proof -
  from extract_sentences_result [OF assms(1)] obtain root where
    "extract_loop (elem_children root) [] [] = Inr (sentence_pairs, alignments)" by blast
  from extract_loop_nonneg [OF this assms(2,3)] show ?thesis .
qed

text \<open>An instance: the pair \<open>(0, 3)\<close> of the example document.\<close>

theorem alignment_positions_nonnegative_witness:
  "snd (extract_sentences (parse_as example_escaped example_root)
         [(''corpus'', example_doc)] ''corpus'') =
   Inr ([\<lparr>source = [''AT&T'', ''b''], target = [''x'']\<rparr>,
         \<lparr>source = [''c''], target = [''y'', ''&amp;'', ''z'']\<rparr>],
        [\<lparr>sure = [(0, 3), (1, 1)], possible = []\<rparr>,
         \<lparr>sure = [], possible = [(1, 2)]\<rparr>]) \<and>
   \<lparr>sure = [(0, 3), (1, 1)], possible = []\<rparr> \<in>
     set [\<lparr>sure = [(0, 3), (1, 1)], possible = []\<rparr>, \<lparr>sure = [], possible = [(1, 2)]\<rparr>] \<and>
   (0, 3) \<in> set (sure \<lparr>sure = [(0, 3), (1, 1)], possible = []\<rparr>) \<union>
             set (possible \<lparr>sure = [(0, 3), (1, 1)], possible = []\<rparr>) \<and>
   (0::int) \<le> 0 \<and> (0::int) \<le> 3"
proof -
  let ?al = "\<lparr>sure = [(0, 3), (1, 1)], possible = []\<rparr>"
  let ?als = "[?al, \<lparr>sure = [], possible = [(1, 2)]\<rparr>]"
  have m: "?al \<in> set ?als" by simp
  have p: "(0, 3) \<in> set (sure ?al) \<union> set (possible ?al)" by simp
  from alignment_positions_nonnegative [OF example_result m p]
  have "(0::int) \<le> 0 \<and> (0::int) \<le> 3" .
  with example_result m p show ?thesis by (intro conjI) simp_all
qed

lemma escape_ampersands_concat:
  "escape_ampersands s = concat (map (\<lambda>c. if c = CHR ''&'' then ''&amp;'' else [c]) s)"
  by (induction s) (simp_all add: escape_ampersands_def)

lemma expand_escaped: "expand_references None (escape_ampersands s) = Some s"
  by (induction s) (simp_all add: escape_ampersands_def predefined_entity_def)

lemma extract_sentences_written:
  assumes "dict_get fs filename = Some content"
  shows "dict_get (fst (extract_sentences parse fs filename)) ''new'' =
           Some (escape_ampersands content)"
    and "snd (extract_sentences parse fs filename) =
           (case parse (escape_ampersands content) of
              Inl e \<Rightarrow> Inl e
            | Inr root \<Rightarrow> extract_loop (elem_children root) [] [])"
  using assms by (simp_all add: extract_sentences_def Let_def dict_get_dict_set_same)

text \<open>
  C8: line 51 replaces every ampersand of the file content by \<open>&amp;\<close>, whatever
  follows it; the escaped text is what is written to \<open>new\<close> and what the parser
  reads. Expanding the references of an escaped text gives back the text before
  the escaping, so a bare ampersand as in \<open>AT&T\<close>, not well-formed by itself, is
  read as written, and a reference such as \<open>&lt;\<close> is escaped twice: its text
  value is \<open>&lt;\<close>, not \<open><\<close>.
\<close>

theorem ampersands_escaped_unconditionally:
  "escape_ampersands s = concat (map (\<lambda>c. if c = CHR ''&'' then ''&amp;'' else [c]) s) \<and>
   (dict_get fs filename = Some content \<longrightarrow>
      dict_get (fst (extract_sentences parse fs filename)) ''new'' =
        Some (escape_ampersands content) \<and>
      snd (extract_sentences parse fs filename) =
        (case parse (escape_ampersands content) of
           Inl e \<Rightarrow> Inl e
         | Inr root \<Rightarrow> extract_loop (elem_children root) [] [])) \<and>
   expand_references None (escape_ampersands s) = Some s \<and>
   expand_references None ''AT&T'' = None \<and>
   escape_ampersands ''AT&T'' = ''AT&amp;T'' \<and>
   expand_references None ''&lt;'' = Some ''<'' \<and>
   escape_ampersands ''&lt;'' = ''&amp;lt;'' \<and>
   expand_references None ''&amp;lt;'' = Some ''&lt;''"
proof (intro conjI impI)
  show "escape_ampersands s = concat (map (\<lambda>c. if c = CHR ''&'' then ''&amp;'' else [c]) s)"
    by (rule escape_ampersands_concat)
  show "expand_references None (escape_ampersands s) = Some s"
    by (rule expand_escaped)
  show "expand_references None ''AT&T'' = None"
    by (simp add: predefined_entity_def)
  show "escape_ampersands ''AT&T'' = ''AT&amp;T''"
    by (simp add: escape_ampersands_def)
  show "expand_references None ''&lt;'' = Some ''<''"
    by (simp add: predefined_entity_def)
  show "escape_ampersands ''&lt;'' = ''&amp;lt;''"
    by (simp add: escape_ampersands_def)
  show "expand_references None ''&amp;lt;'' = Some ''&lt;''"
    by (simp add: predefined_entity_def)
next
  assume "dict_get fs filename = Some content"
  then show "dict_get (fst (extract_sentences parse fs filename)) ''new'' =
        Some (escape_ampersands content)"
    by (rule extract_sentences_written)
next
  assume "dict_get fs filename = Some content"
  then show "snd (extract_sentences parse fs filename) =
        (case parse (escape_ampersands content) of
           Inl e \<Rightarrow> Inl e
         | Inr root \<Rightarrow> extract_loop (elem_children root) [] [])"
    by (rule extract_sentences_written)
qed

text \<open>An instance: the example document.\<close>

theorem ampersands_escaped_unconditionally_witness:
  "dict_get [(''corpus'', example_doc)] ''corpus'' = Some example_doc \<and>
   dict_get (fst (extract_sentences (parse_as example_escaped example_root)
                    [(''corpus'', example_doc)] ''corpus'')) ''new'' = Some example_escaped \<and>
   snd (extract_sentences (parse_as example_escaped example_root)
          [(''corpus'', example_doc)] ''corpus'') =
     extract_loop (elem_children example_root) [] []"
proof -
  have h: "dict_get [(''corpus'', example_doc)] ''corpus'' = Some example_doc"
    by (simp add: dict_get_def)
  have p: "parse_as example_escaped example_root example_escaped = Inr example_root"
    by (simp add: parse_as_def)
  from ampersands_escaped_unconditionally
         [of _ "[(''corpus'', example_doc)]" "''corpus''" example_doc
             "parse_as example_escaped example_root"] h
  have "dict_get (fst (extract_sentences (parse_as example_escaped example_root)
                    [(''corpus'', example_doc)] ''corpus'')) ''new'' =
          Some (escape_ampersands example_doc)"
    and "snd (extract_sentences (parse_as example_escaped example_root)
          [(''corpus'', example_doc)] ''corpus'') =
        (case parse_as example_escaped example_root (escape_ampersands example_doc) of
           Inl e \<Rightarrow> Inl e
         | Inr root \<Rightarrow> extract_loop (elem_children root) [] [])"
    by blast+
  with h p show ?thesis by (simp add: example_escape)
qed

text \<open>
  C7, at an empty source element: the parser leaves the text of an element
  without character data at \<open>None\<close>, and line 62 calls \<open>split\<close> on it, which
  raises \<open>AttributeError\<close>. A text of whitespace only gives the empty token list,
  and the alignment fields accept a \<open>None\<close> text (lines 65 and 67).
\<close>

theorem empty_source_text_raises:
  "snd (extract_sentences (parse_as absent_doc absent_root)
          [(''corpus'', absent_doc)] ''corpus'') = Inl AttributeError \<and>
   text_split (Element ''s'' None [Element ''e'' None [], Element ''c'' (Some '' '') []]) 0 =
     Inl AttributeError \<and>
   text_split (Element ''s'' None [Element ''e'' None [], Element ''c'' (Some '' '') []]) 1 =
     Inr [] \<and>
   alignment_field (Element ''s'' None [Element ''e'' None [], Element ''c'' (Some '' '') []]) 0 =
     Inr []"
  by (simp add: extract_eval escape_ampersands_def absent_doc_def)
     (simp add: absent_root_def extract_eval)

end
